theory Spec2Isabelle
  imports Main "HOL-Library.Word"
begin

section \<open>Strings of the program\<close>

text \<open>
  A JavaScript string is a sequence of 16-bit code units, so a character of the program is
  a \<open>16 word\<close> and a string is a list of them. \<open>js\<close> turns an ASCII literal into such a
  string.
\<close>

type_synonym jschar = "16 word"
type_synonym jsstring = "jschar list"

definition js :: "string \<Rightarrow> jsstring" where
  "js s = map of_char s"

definition QUOTE :: jschar where
  "QUOTE = 0x22"

definition COMMA :: jschar where
  "COMMA = 0x2C"

definition NEWLINE :: jschar where
  "NEWLINE = 0x0A"

text \<open>
  The code units that \<open>String.prototype.trim\<close> strips: the WhiteSpace and
  LineTerminator code points of ECMAScript, all of them in the basic plane.
\<close>

definition isWhiteSpace :: "jschar \<Rightarrow> bool" where
  "isWhiteSpace c \<longleftrightarrow> c \<in> set [0x09, 0x0A, 0x0B, 0x0C, 0x0D, 0x20, 0xA0, 0x1680,
     0x2000, 0x2001, 0x2002, 0x2003, 0x2004, 0x2005, 0x2006, 0x2007, 0x2008, 0x2009, 0x200A,
     0x2028, 0x2029, 0x202F, 0x205F, 0x3000, 0xFEFF]"

definition trim :: "jsstring \<Rightarrow> jsstring" where
  "trim s = rev (dropWhile isWhiteSpace (rev (dropWhile isWhiteSpace s)))"

section \<open>The record codec\<close>

subsection \<open>Decoding: \<open>parseCSVLine\<close>\<close>

text \<open>
  The \<open>while\<close> loop of \<open>parseCSVLine\<close>, with its four variables \<open>i\<close>, \<open>result\<close>,
  \<open>current\<close> and \<open>inQuotes\<close>. Reading \<open>line[i + 1]\<close> past the end gives \<open>undefined\<close>
  in JavaScript, which is not a quote: \<open>nextChar\<close> is \<open>None\<close> there. The loop returns the
  field list and the accumulator it ends with.
\<close>

function parse_while ::
  "jsstring \<Rightarrow> nat \<Rightarrow> jsstring list \<Rightarrow> jsstring \<Rightarrow> bool \<Rightarrow> jsstring list \<times> jsstring" where
  "parse_while line i result current inQuotes =
     (if i < length line then
        (let char = line ! i;
             nextChar = (if i + 1 < length line then Some (line ! (i + 1)) else None)
         in if char = QUOTE \<and> inQuotes \<and> nextChar = Some QUOTE then
              parse_while line (i + 2) result (current @ [QUOTE]) inQuotes
            else if char = QUOTE then
              parse_while line (i + 1) result current (\<not> inQuotes)
            else if char = COMMA \<and> \<not> inQuotes then
              parse_while line (i + 1) (result @ [trim current]) [] inQuotes
            else
              parse_while line (i + 1) result (current @ [char]) inQuotes)
      else (result, current))"
  by pat_completeness auto
termination
  by (relation "measure (\<lambda>(line, i, result, current, inQuotes). length line - i)") auto

text \<open>
  Nothing in \<open>parseCSVLine\<close> throws: the function has one exit, its \<open>return result\<close>.
  The final \<open>if (current)\<close> pushes the accumulator when it is a non-empty string.
\<close>

datatype error = MalformedRecord | StorageUnavailable

definition parseCSVLine :: "jsstring \<Rightarrow> error + jsstring list" where
  "parseCSVLine line =
     (case parse_while line 0 [] [] False of
        (result, current) \<Rightarrow>
          Inr (if current \<noteq> [] then result @ [trim current] else result))"

text \<open>
  The same loop on the rest of the line instead of the index: \<open>char\<close> is the head,
  \<open>nextChar\<close> the head of the tail. \<open>parse_while_chars\<close> below shows that the two agree.
\<close>

function parse_chars ::
  "jsstring \<Rightarrow> jsstring list \<Rightarrow> jsstring \<Rightarrow> bool \<Rightarrow> jsstring list \<times> jsstring" where
  "parse_chars [] result current inQuotes = (result, current)"
| "parse_chars (c # cs) result current inQuotes =
     (if c = QUOTE \<and> inQuotes \<and> cs \<noteq> [] \<and> hd cs = QUOTE then
        parse_chars (tl cs) result (current @ [QUOTE]) inQuotes
      else if c = QUOTE then parse_chars cs result current (\<not> inQuotes)
      else if c = COMMA \<and> \<not> inQuotes then parse_chars cs (result @ [trim current]) [] inQuotes
      else parse_chars cs result (current @ [c]) inQuotes)"
  by pat_completeness auto
termination
  by (relation "measure (\<lambda>(cs, result, current, inQuotes). length cs)") auto

subsection \<open>Encoding: the line built by \<open>POST /save\<close>\<close>

text \<open>\<open>s.replace(/"/g, '""')\<close>: every quote character is doubled.\<close>

definition escapeQuotes :: "jsstring \<Rightarrow> jsstring" where
  "escapeQuotes s = concat (map (\<lambda>c. if c = QUOTE then [QUOTE, QUOTE] else [c]) s)"

text \<open>
  The fields of the request body that the handler reads. A field that the request does not
  carry is \<open>undefined\<close> in JavaScript: \<open>None\<close> here; a field that it carries is a
  string (values of the other JSON types are outside the model). \<open>x || y\<close> on strings
  takes \<open>y\<close> when \<open>x\<close> is \<open>undefined\<close> or the empty string.
\<close>

record save_request =
  body_timestamp :: "jsstring option"
  body_topic :: "jsstring option"
  body_payload :: "jsstring option"
  body_username :: "jsstring option"
  body_sender :: "jsstring option"

definition or_else :: "jsstring option \<Rightarrow> jsstring option \<Rightarrow> jsstring option" where
  "or_else x y = (case x of None \<Rightarrow> y | Some s \<Rightarrow> if s = [] then y else Some s)"

definition to_String :: "jsstring option \<Rightarrow> jsstring" where
  "to_String x = (case x of None \<Rightarrow> js ''undefined'' | Some s \<Rightarrow> s)"

text \<open>
  The four texts that go into the line: \<open>`${timestamp}`\<close>, \<open>String(topic || '')\<close>,
  \<open>String(sender || username || '')\<close> and \<open>String(payload || '')\<close>.
\<close>

definition timestamp_text :: "save_request \<Rightarrow> jsstring" where
  "timestamp_text r = to_String (body_timestamp r)"

definition topic_text :: "save_request \<Rightarrow> jsstring" where
  "topic_text r = to_String (or_else (body_topic r) (Some []))"

definition sender_text :: "save_request \<Rightarrow> jsstring" where
  "sender_text r = to_String (or_else (or_else (body_sender r) (body_username r)) (Some []))"

definition payload_text :: "save_request \<Rightarrow> jsstring" where
  "payload_text r = to_String (or_else (body_payload r) (Some []))"

definition safePayload :: "save_request \<Rightarrow> jsstring" where
  "safePayload r = escapeQuotes (payload_text r)"

definition safeTopic :: "save_request \<Rightarrow> jsstring" where
  "safeTopic r = escapeQuotes (topic_text r)"

definition safeSender :: "save_request \<Rightarrow> jsstring" where
  "safeSender r = escapeQuotes (sender_text r)"

text \<open>The template literal \<open>`${timestamp},"${safeTopic}","${safeSender}","${safePayload}"\n`\<close>.\<close>

definition save_line :: "save_request \<Rightarrow> jsstring" where
  "save_line r =
     timestamp_text r @ [COMMA, QUOTE] @ safeTopic r @ [QUOTE, COMMA, QUOTE] @
     safeSender r @ [QUOTE, COMMA, QUOTE] @ safePayload r @ [QUOTE, NEWLINE]"

text \<open>
  What the handler leaves in the user's file: \<open>writeFileSync\<close> of the header when the file
  does not exist (\<open>None\<close>), then \<open>appendFileSync\<close> of the line.
\<close>

definition header :: jsstring where
  "header = js ''Timestamp,Topic,Sender,Message'' @ [NEWLINE]"

definition saved_content :: "jsstring option \<Rightarrow> save_request \<Rightarrow> jsstring" where
  "saved_content old r = (case old of None \<Rightarrow> header | Some content \<Rightarrow> content) @ save_line r"

section \<open>The log store\<close>

subsection \<open>Storage\<close>

text \<open>
  The directory \<open>saved_messages\<close> as the query sees it. \<open>None\<close> is a directory that
  \<open>readdirSync\<close> cannot list; otherwise the entries come in the order \<open>readdirSync\<close>
  returns them, each with the text \<open>readFileSync(_, 'utf8')\<close> gives for it, or \<open>None\<close>
  when that call throws.
\<close>

type_synonym storage = "(jsstring \<times> jsstring option) list option"

definition readdirSync :: "storage \<Rightarrow> error + jsstring list" where
  "readdirSync st = (case st of None \<Rightarrow> Inl StorageUnavailable | Some es \<Rightarrow> Inr (map fst es))"

definition readFileSync :: "storage \<Rightarrow> jsstring \<Rightarrow> error + jsstring" where
  "readFileSync st file =
     (case st of
        None \<Rightarrow> Inl StorageUnavailable
      | Some es \<Rightarrow>
          (case map_of es file of
             Some (Some content) \<Rightarrow> Inr content
           | _ \<Rightarrow> Inl StorageUnavailable))"

definition endsWith :: "jsstring \<Rightarrow> jsstring \<Rightarrow> bool" where
  "endsWith s x \<longleftrightarrow> length x \<le> length s \<and> drop (length s - length x) s = x"

text \<open>\<open>s.split(d)\<close> for a one-character separator: never empty, \<open>''.split(d)\<close> is \<open>['']\<close>.\<close>

fun split :: "jschar \<Rightarrow> jsstring \<Rightarrow> jsstring list" where
  "split d [] = [[]]"
| "split d (c # cs) =
     (if c = d then [] # split d cs
      else (case split d cs of [] \<Rightarrow> [[c]] | piece # pieces \<Rightarrow> (c # piece) # pieces))"

subsection \<open>\<open>getMessagesForTopic\<close>\<close>

text \<open>The object pushed for a matching line; \<open>username\<close> and \<open>sender\<close> both hold \<open>fields[2]\<close>
  (the array \<open>fields\<close> is \<open>row\<close> below).\<close>

record message =
  m_timestamp :: jsstring
  m_topic :: jsstring
  m_username :: jsstring
  m_message :: jsstring
  m_sender :: jsstring

text \<open>
  The body of the inner \<open>for\<close> loop, on the pair of the \<open>messages\<close> array and the lines
  that \<open>console.warn\<close> has printed. The \<open>catch (parseError)\<close> block is the \<open>Inl\<close> branch.
\<close>

definition scan_line ::
  "jsstring \<Rightarrow> jsstring \<Rightarrow> message list \<times> jsstring list \<Rightarrow> message list \<times> jsstring list" where
  "scan_line tpc line acc =
     (case acc of (messages, warnings) \<Rightarrow>
        if trim line \<noteq> [] then
          (case parseCSVLine line of
             Inr row \<Rightarrow>
               if length row \<ge> 4 \<and> row ! 1 = tpc then
                 (messages @ [\<lparr>m_timestamp = row ! 0, m_topic = row ! 1,
                    m_username = row ! 2, m_message = row ! 3, m_sender = row ! 2\<rparr>],
                  warnings)
               else (messages, warnings)
           | Inl parseError \<Rightarrow> (messages, warnings @ [line]))
        else (messages, warnings))"

text \<open>One file: \<open>content.split('\n').slice(1)\<close>, then the inner loop.\<close>

definition scan_content ::
  "jsstring \<Rightarrow> jsstring \<Rightarrow> message list \<times> jsstring list \<Rightarrow> message list \<times> jsstring list" where
  "scan_content tpc content acc =
     foldl (\<lambda>a line. scan_line tpc line a) acc (tl (split NEWLINE content))"

text \<open>
  The outer \<open>for\<close> loop. A \<open>readFileSync\<close> that throws leaves the loop; what
  \<open>console.warn\<close> printed before stays printed.
\<close>

fun scan_files ::
  "storage \<Rightarrow> jsstring \<Rightarrow> jsstring list \<Rightarrow> message list \<times> jsstring list \<Rightarrow>
   (error + message list) \<times> jsstring list" where
  "scan_files st tpc [] acc = (Inr (fst acc), snd acc)"
| "scan_files st tpc (file # files) acc =
     (case readFileSync st file of
        Inl e \<Rightarrow> (Inl e, snd acc)
      | Inr content \<Rightarrow> scan_files st tpc files (scan_content tpc content acc))"

text \<open>The \<open>try\<close> block up to the sort: list the directory, keep the \<open>.csv\<close> names, scan.\<close>

definition collect_messages :: "storage \<Rightarrow> jsstring \<Rightarrow> (error + message list) \<times> jsstring list" where
  "collect_messages st tpc =
     (case readdirSync st of
        Inl e \<Rightarrow> (Inl e, [])
      | Inr names \<Rightarrow>
          scan_files st tpc (filter (\<lambda>file. endsWith file (js ''.csv'')) names) ([], []))"

text \<open>
  \<open>new Date(s)\<close> is the runtime's: the program is modelled for any date parser \<open>Date\<close>,
  which gives the time value of a string in milliseconds, or \<open>None\<close> for an invalid date
  (whose number is \<open>NaN\<close>). The comparator \<open>(a, b) => new Date(a.timestamp) - new
  Date(b.timestamp)\<close> is \<open>NaN\<close> (\<open>None\<close>) as soon as one of the two dates is invalid. Time values
  are integers of magnitude at most 8.64e15, so the sign of the floating-point difference is
  the sign of the exact one.
\<close>

definition compare_timestamps :: "(jsstring \<Rightarrow> int option) \<Rightarrow> message \<Rightarrow> message \<Rightarrow> int option" where
  "compare_timestamps Date a b =
     (case Date (m_timestamp a) of
        None \<Rightarrow> None
      | Some x \<Rightarrow> (case Date (m_timestamp b) of None \<Rightarrow> None | Some y \<Rightarrow> Some (x - y)))"

text \<open>
  \<open>Array.prototype.sort\<close> with a comparator. ECMAScript reads a comparator result of
  \<open>NaN\<close> as \<open>+0\<close>, and asks for a stable sort (since ES2019). Where the comparator is
  consistent on the array this fixes the result, and it is the one of the stable insertion
  sort below. Where it is not (an invalid date among two or more different valid ones) the
  language leaves the order to the implementation; no theorem below is about such an array.
\<close>

definition comparefn_result :: "int option \<Rightarrow> int" where
  "comparefn_result v = (case v of None \<Rightarrow> 0 | Some n \<Rightarrow> n)"

fun sort_insert :: "('a \<Rightarrow> 'a \<Rightarrow> int option) \<Rightarrow> 'a \<Rightarrow> 'a list \<Rightarrow> 'a list" where
  "sort_insert comparefn x [] = [x]"
| "sort_insert comparefn x (y # ys) =
     (if comparefn_result (comparefn x y) \<le> 0 then x # y # ys
      else y # sort_insert comparefn x ys)"

definition Array_sort :: "('a \<Rightarrow> 'a \<Rightarrow> int option) \<Rightarrow> 'a list \<Rightarrow> 'a list" where
  "Array_sort comparefn xs = foldr (sort_insert comparefn) xs []"

text \<open>\<open>xs.slice(start)\<close>: a negative \<open>start\<close> counts from the end, clamped at the front.\<close>

definition Array_slice :: "int \<Rightarrow> 'a list \<Rightarrow> 'a list" where
  "Array_slice start xs =
     (let len = int (length xs);
          k = (if start < 0 then max (len + start) 0 else min start len)
      in drop (nat k) xs)"

text \<open>
  The function with its two exits: the sorted and sliced \<open>messages\<close>, or \<open>[]\<close> from the
  \<open>catch (error)\<close> block. \<open>limit\<close> is \<open>None\<close> when the caller passes no second argument
  (\<open>limit = 10\<close>). The second component is what \<open>console.warn\<close> printed.
\<close>

definition getMessagesForTopic_run ::
  "(jsstring \<Rightarrow> int option) \<Rightarrow> storage \<Rightarrow> jsstring \<Rightarrow> int option \<Rightarrow> message list \<times> jsstring list" where
  "getMessagesForTopic_run Date st tpc limit_arg =
     (let limit = (case limit_arg of None \<Rightarrow> 10 | Some n \<Rightarrow> n)
      in case collect_messages st tpc of
           (Inr messages, warnings) \<Rightarrow>
             (Array_slice (- limit) (Array_sort (compare_timestamps Date) messages), warnings)
         | (Inl e, warnings) \<Rightarrow> ([], warnings))"

definition getMessagesForTopic ::
  "(jsstring \<Rightarrow> int option) \<Rightarrow> storage \<Rightarrow> jsstring \<Rightarrow> int option \<Rightarrow> message list" where
  "getMessagesForTopic Date st tpc limit_arg = fst (getMessagesForTopic_run Date st tpc limit_arg)"

subsection \<open>\<open>GET /messages/:topic\<close>\<close>

text \<open>
  \<open>parseInt(s)\<close> with no radix, after ECMAScript: leading white space and one sign are
  skipped, \<open>0x\<close> or \<open>0X\<close> selects radix 16, and the longest run of digits is read; no digit
  gives \<open>NaN\<close> (\<open>None\<close>). The result is exact here; the runtime rounds it to a double, which
  changes nothing for a limit below 2^53.
\<close>

definition digitValue :: "jschar \<Rightarrow> nat option" where
  "digitValue c =
     (if 0x30 \<le> c \<and> c \<le> 0x39 then Some (unat c - 0x30)
      else if 0x61 \<le> c \<and> c \<le> 0x7A then Some (unat c - 0x61 + 10)
      else if 0x41 \<le> c \<and> c \<le> 0x5A then Some (unat c - 0x41 + 10)
      else None)"

definition isRadixDigit :: "nat \<Rightarrow> jschar \<Rightarrow> bool" where
  "isRadixDigit R c = (case digitValue c of None \<Rightarrow> False | Some d \<Rightarrow> d < R)"

definition parseInt :: "jsstring \<Rightarrow> int option" where
  "parseInt inputString =
     (let S = dropWhile isWhiteSpace inputString;
          sign = (if S \<noteq> [] \<and> hd S = 0x2D then - 1 else 1);
          S = (if S \<noteq> [] \<and> (hd S = 0x2B \<or> hd S = 0x2D) then tl S else S);
          hex = (length S \<ge> 2 \<and> S ! 0 = 0x30 \<and> (S ! 1 = 0x78 \<or> S ! 1 = 0x58));
          R = (if hex then 16 else 10);
          S = (if hex then drop 2 S else S);
          Z = takeWhile (isRadixDigit R) S
      in if Z = [] then None
         else Some (sign * int (foldl (\<lambda>n c. n * R + the (digitValue c)) 0 Z)))"

text \<open>
  The two responses of the handler: \<open>Ok200 messages topic count\<close> is
  \<open>res.json({success: true, messages, topic, count})\<close>, \<open>Error500 text\<close> is
  \<open>res.status(500).json({success: false, error: text})\<close>.
\<close>

datatype response = Ok200 "message list" jsstring nat | Error500 jsstring

text \<open>
  \<open>parseInt(req.query.limit) || 10\<close>: \<open>NaN\<close> and \<open>0\<close> are falsy. A query string without
  \<open>limit\<close> gives \<open>undefined\<close>, which \<open>parseInt\<close> reads as the text \<open>undefined\<close>.
\<close>

definition query_limit :: "jsstring option \<Rightarrow> int" where
  "query_limit q =
     (case parseInt (to_String q) of None \<Rightarrow> 10 | Some n \<Rightarrow> if n = 0 then 10 else n)"

text \<open>
  Nothing in the \<open>try\<close> block of the handler throws (\<open>getMessagesForTopic\<close> catches its
  own errors), so its only response is the first one.
\<close>

definition get_messages ::
  "(jsstring \<Rightarrow> int option) \<Rightarrow> storage \<Rightarrow> jsstring \<Rightarrow> jsstring option \<Rightarrow> response" where
  "get_messages Date st tpc q =
     (let limit = query_limit q;
          messages = getMessagesForTopic Date st tpc (Some limit)
      in Ok200 messages tpc (length messages))"

section \<open>The topic registry\<close>

text \<open>
  The state that the socket handlers share: the object \<open>userCounts\<close>, one variable
  \<open>joinedTopic\<close> for every connected socket (\<open>None\<close> for a socket that is not connected,
  \<open>Some None\<close> for \<open>null\<close>), and the \<open>userCountUpdate\<close> events sent so far, each with the
  room it went to. Topics are strings; a property that \<open>userCounts\<close> inherits from
  \<open>Object.prototype\<close> (a topic named \<open>constructor\<close>, say) is outside the model.
\<close>

type_synonym socket_id = nat

record registry =
  userCounts :: "jsstring \<rightharpoonup> int"
  joinedTopic :: "socket_id \<rightharpoonup> jsstring option"
  emitted :: "(jsstring \<times> int) list"

definition initial :: registry where
  "initial = \<lparr>userCounts = Map.empty, joinedTopic = Map.empty, emitted = []\<rparr>"

text \<open>A string is truthy when it is not empty, a number when it is not zero.\<close>

definition truthy_topic :: "jsstring option \<Rightarrow> bool" where
  "truthy_topic t = (case t of None \<Rightarrow> False | Some s \<Rightarrow> s \<noteq> [])"

definition truthy_count :: "int option \<Rightarrow> bool" where
  "truthy_count n = (case n of None \<Rightarrow> False | Some k \<Rightarrow> k \<noteq> 0)"

text \<open>
  The block that both handlers share: \<open>userCounts[t] = Math.max(0, userCounts[t] - 1)\<close>
  and the \<open>emit\<close> of the new count to the room.
\<close>

definition decrement :: "jsstring \<Rightarrow> registry \<Rightarrow> registry" where
  "decrement t s =
     (let n = max 0 (the (userCounts s t) - 1)
      in s\<lparr>userCounts := (userCounts s)(t \<mapsto> n), emitted := emitted s @ [(t, n)]\<rparr>)"

definition on_connection :: "socket_id \<Rightarrow> registry \<Rightarrow> registry" where
  "on_connection c s = s\<lparr>joinedTopic := (joinedTopic s)(c \<mapsto> None)\<rparr>"

definition on_joinTopic :: "socket_id \<Rightarrow> jsstring \<Rightarrow> registry \<Rightarrow> registry" where
  "on_joinTopic c t s =
     (let old = the (joinedTopic s c);
          s1 = (if truthy_topic old \<and> truthy_count (userCounts s (the old))
                then decrement (the old) s else s);
          n = (case userCounts s1 t of None \<Rightarrow> 0 | Some k \<Rightarrow> if k = 0 then 0 else k) + 1
      in s1\<lparr>userCounts := (userCounts s1)(t \<mapsto> n),
            joinedTopic := (joinedTopic s1)(c \<mapsto> Some t),
            emitted := emitted s1 @ [(t, n)]\<rparr>)"

definition on_disconnect :: "socket_id \<Rightarrow> registry \<Rightarrow> registry" where
  "on_disconnect c s =
     (let old = the (joinedTopic s c);
          s1 = (if truthy_topic old \<and> truthy_count (userCounts s (the old))
                then decrement (the old) s else s)
      in s1\<lparr>joinedTopic := (joinedTopic s1)(c := None)\<rparr>)"

text \<open>
  The events of the transport. A socket has handlers from its \<open>connection\<close> to its
  \<open>disconnect\<close> only, and socket ids are not reused while connected: an event for a socket
  in the wrong state does not happen, and leaves the state as it is.
\<close>

datatype event = Connection socket_id | JoinTopic socket_id jsstring | Disconnect socket_id

fun step :: "registry \<Rightarrow> event \<Rightarrow> registry" where
  "step s (Connection c) = (if joinedTopic s c = None then on_connection c s else s)"
| "step s (JoinTopic c t) = (if joinedTopic s c = None then s else on_joinTopic c t s)"
| "step s (Disconnect c) = (if joinedTopic s c = None then s else on_disconnect c s)"

definition run :: "event list \<Rightarrow> registry" where
  "run events = foldl step initial events"

text \<open>What the registry says about a topic, and what is true of it.\<close>

definition count_of :: "registry \<Rightarrow> jsstring \<Rightarrow> int" where
  "count_of s t = (case userCounts s t of None \<Rightarrow> 0 | Some n \<Rightarrow> n)"

definition joined_clients :: "registry \<Rightarrow> jsstring \<Rightarrow> socket_id set" where
  "joined_clients s t = {c. joinedTopic s c = Some (Some t)}"

section \<open>Notions used in the statements\<close>

text \<open>The object that the scan builds from the line of a saved request.\<close>

definition message_of :: "save_request \<Rightarrow> message" where
  "message_of r = \<lparr>m_timestamp = trim (timestamp_text r), m_topic = trim (topic_text r),
     m_username = trim (sender_text r), m_message = trim (payload_text r),
     m_sender = trim (sender_text r)\<rparr>"

text \<open>The time value of a message whose timestamp is a valid date.\<close>

definition time_of :: "(jsstring \<Rightarrow> int option) \<Rightarrow> message \<Rightarrow> int" where
  "time_of Date m = the (Date (m_timestamp m))"

text \<open>
  A request whose line stays one line of the file and whose timestamp does not disturb the
  fields after it: no quote, comma or line break in the timestamp text, no line break in the
  other three texts.
\<close>

definition line_safe :: "save_request \<Rightarrow> bool" where
  "line_safe r \<longleftrightarrow>
     QUOTE \<notin> set (timestamp_text r) \<and> COMMA \<notin> set (timestamp_text r) \<and>
     NEWLINE \<notin> set (timestamp_text r) \<and> NEWLINE \<notin> set (topic_text r) \<and>
     NEWLINE \<notin> set (sender_text r) \<and> NEWLINE \<notin> set (payload_text r)"

text \<open>
  A storage that the query cannot read: the directory cannot be listed, or one of its
  \<open>.csv\<close> files cannot be read.
\<close>

definition storage_unavailable :: "storage \<Rightarrow> bool" where
  "storage_unavailable st =
     (case readdirSync st of
        Inl e \<Rightarrow> True
      | Inr names \<Rightarrow>
          list_ex (\<lambda>file. endsWith file (js ''.csv'') \<and> isl (readFileSync st file)) names)"

text \<open>The object that the scan builds from a row of at least four fields.\<close>

definition row_message :: "jsstring list \<Rightarrow> message" where
  "row_message row = \<lparr>m_timestamp = row ! 0, m_topic = row ! 1, m_username = row ! 2,
     m_message = row ! 3, m_sender = row ! 2\<rparr>"


text \<open>
  A registry whose counts are right: finitely many sockets are connected, no count is
  negative, and the count of every non-empty topic is the number of connected sockets whose
  \<open>joinedTopic\<close> is that topic.
\<close>

definition consistent :: "registry \<Rightarrow> bool" where
  "consistent s \<longleftrightarrow>
     finite (dom (joinedTopic s)) \<and>
     (\<forall>t. 0 \<le> count_of s t) \<and>
     (\<forall>t. t \<noteq> [] \<longrightarrow> count_of s t = int (card (joined_clients s t)))"

text \<open>
  The state after the block that both handlers start with: the decrement and its \<open>emit\<close>
  when \<open>joinedTopic\<close> and its count are truthy.
\<close>

definition left :: "socket_id \<Rightarrow> registry \<Rightarrow> registry" where
  "left c s =
     (let old = the (joinedTopic s c)
      in if truthy_topic old \<and> truthy_count (userCounts s (the old))
         then decrement (the old) s else s)"

section \<open>Example inputs\<close>

text \<open>The request of the scenario: alice reports \<open>sunny\<close> on \<open>weather\<close>.\<close>

definition sunny_request :: save_request where
  "sunny_request = \<lparr>body_timestamp = Some (js ''2024-01-01T00:00:00Z''),
     body_topic = Some (js ''weather''), body_payload = Some (js ''sunny''),
     body_username = Some (js ''alice''), body_sender = Some (js ''alice'')\<rparr>"

text \<open>The body \<open>He said "hi"\<close>, and the field the spec expects for it.\<close>

definition he_said_hi :: jsstring where
  "he_said_hi = js ''He said '' @ [QUOTE] @ js ''hi'' @ [QUOTE]"

definition he_said_hi_field :: jsstring where
  "he_said_hi_field = [QUOTE] @ js ''He said '' @ [QUOTE, QUOTE] @ js ''hi'' @ [QUOTE, QUOTE, QUOTE]"

text \<open>
  A date parser that agrees with the runtime's on the three timestamps of the examples:
  midnight UTC of the first two days of 2024, and a text that is no date.
\<close>

definition example_Date :: "jsstring \<Rightarrow> int option" where
  "example_Date s =
     (if s = js ''2024-01-01T00:00:00Z'' then Some 1704067200000
      else if s = js ''2024-01-02T00:00:00Z'' then Some 1704153600000
      else None)"

definition rainy_request :: save_request where
  "rainy_request = \<lparr>body_timestamp = Some (js ''2024-01-02T00:00:00Z''),
     body_topic = Some (js ''weather''), body_payload = Some (js ''rainy''),
     body_username = Some (js ''adam''), body_sender = Some (js ''adam'')\<rparr>"

definition undated_request :: save_request where
  "undated_request = \<lparr>body_timestamp = Some (js ''yesterday''),
     body_topic = Some (js ''weather''), body_payload = Some (js ''windy''),
     body_username = Some (js ''alice''), body_sender = Some (js ''alice'')\<rparr>"

text \<open>
  Two log files whose records are out of order across the files, a file with an undated
  record after a dated one, a file with a malformed line between two records, and a file that
  cannot be read.
\<close>

definition two_files :: storage where
  "two_files = Some [(js ''adam_messages.csv'', Some (saved_content None rainy_request)),
     (js ''alice_messages.csv'', Some (saved_content None sunny_request))]"

definition undated_file :: storage where
  "undated_file = Some [(js ''alice_messages.csv'',
     Some (saved_content (Some (saved_content None sunny_request)) undated_request))]"

definition malformed_file :: storage where
  "malformed_file = Some [(js ''alice_messages.csv'',
     Some (header @ save_line sunny_request @ js ''not a record'' @ [NEWLINE] @
           save_line rainy_request))]"

definition unreadable_file :: storage where
  "unreadable_file = Some [(js ''alice_messages.csv'', None)]"

text \<open>
  A request with an empty body whose timestamp holds a comma (a form of date that the
  runtime's \<open>Date\<close> accepts), and the file it leaves.
\<close>

definition comma_request :: save_request where
  "comma_request = \<lparr>body_timestamp = Some (js ''Jan 1, 2024''),
     body_topic = Some (js ''weather''), body_payload = Some [],
     body_username = Some (js ''alice''), body_sender = Some (js ''alice'')\<rparr>"

definition comma_file :: storage where
  "comma_file = Some [(js ''alice_messages.csv'', Some (saved_content None comma_request))]"

section \<open>The codec: facts about the loop\<close>

declare parse_while.simps [simp del]

lemma chars_distinct [simp]:
  "COMMA \<noteq> QUOTE" "QUOTE \<noteq> COMMA" "NEWLINE \<noteq> QUOTE" "QUOTE \<noteq> NEWLINE"
  "NEWLINE \<noteq> COMMA" "COMMA \<noteq> NEWLINE"
  by (simp_all add: COMMA_def QUOTE_def NEWLINE_def)

lemma isWhiteSpace_chars [simp]:
  "isWhiteSpace NEWLINE" "\<not> isWhiteSpace QUOTE" "\<not> isWhiteSpace COMMA"
  by (simp_all add: isWhiteSpace_def COMMA_def QUOTE_def NEWLINE_def)

lemma parse_while_chars:
  "parse_while line i result current inQuotes = parse_chars (drop i line) result current inQuotes"
proof (induction line i result current inQuotes rule: parse_while.induct)
  case (1 line i result current inQuotes)
  show ?case
  proof (cases "i < length line")
    case False
    then show ?thesis by (subst parse_while.simps) simp
  next
    case True
    then have d: "drop i line = line ! i # drop (Suc i) line"
      by (simp add: Cons_nth_drop_Suc)
    have h: "Suc i < length line \<Longrightarrow> hd (drop (Suc i) line) = line ! Suc i"
      by (simp add: hd_drop_conv_nth)
    have t: "tl (drop (Suc i) line) = drop (Suc (Suc i)) line"
      by (simp add: drop_Suc tl_drop)
    show ?thesis
      using True "1.IH"
      by (subst parse_while.simps) (auto simp: d Let_def h t)
  qed
qed

lemma parseCSVLine_chars:
  "parseCSVLine line =
     (case parse_chars line [] [] False of
        (result, current) \<Rightarrow> Inr (if current \<noteq> [] then result @ [trim current] else result))"
  by (simp add: parseCSVLine_def parse_while_chars)

lemma parse_chars_plain:
  "QUOTE \<notin> set xs \<Longrightarrow> COMMA \<notin> set xs \<Longrightarrow>
   parse_chars (xs @ rest) result current False = parse_chars rest result (current @ xs) False"
  by (induction xs arbitrary: current) auto

lemma parse_chars_quoted:
  "rest = [] \<or> hd rest \<noteq> QUOTE \<Longrightarrow>
   parse_chars (escapeQuotes s @ QUOTE # rest) result current True =
   parse_chars rest result (current @ s) False"
  by (induction s arbitrary: current) (auto simp: escapeQuotes_def)

lemma parse_chars_field:
  "rest = [] \<or> hd rest \<noteq> QUOTE \<Longrightarrow>
   parse_chars (COMMA # QUOTE # escapeQuotes s @ QUOTE # rest) result current False =
   parse_chars rest (result @ [trim current]) s False"
  using parse_chars_quoted [of rest s "result @ [trim current]" "[]"] by simp

lemma trim_append_ws:
  assumes "isWhiteSpace w"
  shows "trim (s @ [w]) = trim s"
proof (cases "\<forall>c\<in>set s. isWhiteSpace c")
  case True
  have a: "dropWhile isWhiteSpace s = []"
    using True by (simp add: dropWhile_eq_Nil_conv)
  have "\<forall>c\<in>set (s @ [w]). isWhiteSpace c"
    using True assms by simp
  then have b: "dropWhile isWhiteSpace (s @ [w]) = []"
    by (simp only: dropWhile_eq_Nil_conv)
  show ?thesis by (simp only: trim_def a b)
next
  case False
  then obtain x where "x \<in> set s" "\<not> isWhiteSpace x" by blast
  then have "dropWhile isWhiteSpace (s @ [w]) = dropWhile isWhiteSpace s @ [w]"
    by (rule dropWhile_append1)
  then show ?thesis using assms by (simp add: trim_def)
qed

lemma trim_Nil [simp]: "trim [] = []"
  by (simp add: trim_def)

text \<open>The loop on a saved line, followed by any text without quote or comma.\<close>

lemma parse_chars_save_line:
  assumes "QUOTE \<notin> set (timestamp_text r)" "COMMA \<notin> set (timestamp_text r)"
    and "QUOTE \<notin> set rest" "COMMA \<notin> set rest"
  shows "parse_chars (timestamp_text r @ [COMMA, QUOTE] @ safeTopic r @ [QUOTE, COMMA, QUOTE] @
            safeSender r @ [QUOTE, COMMA, QUOTE] @ safePayload r @ QUOTE # rest) [] [] False =
         ([trim (timestamp_text r), trim (topic_text r), trim (sender_text r)], payload_text r @ rest)"
proof -
  have nq: "rest = [] \<or> hd rest \<noteq> QUOTE"
    using assms(3) by (cases rest) auto
  have "parse_chars (timestamp_text r @ COMMA # QUOTE # safeTopic r @ QUOTE # COMMA # QUOTE #
            safeSender r @ QUOTE # COMMA # QUOTE # safePayload r @ QUOTE # rest) [] [] False =
        parse_chars (COMMA # QUOTE # escapeQuotes (topic_text r) @ QUOTE # COMMA # QUOTE #
            safeSender r @ QUOTE # COMMA # QUOTE # safePayload r @ QUOTE # rest) [] (timestamp_text r) False"
    using parse_chars_plain [OF assms(1,2), of _ "[]" "[]"] by (simp add: safeTopic_def)
  also have "\<dots> = parse_chars (COMMA # QUOTE # escapeQuotes (sender_text r) @ QUOTE # COMMA # QUOTE #
            safePayload r @ QUOTE # rest) [trim (timestamp_text r)] (topic_text r) False"
    by (subst parse_chars_field) (simp_all add: safeSender_def)
  also have "\<dots> = parse_chars (COMMA # QUOTE # escapeQuotes (payload_text r) @ QUOTE # rest)
            [trim (timestamp_text r), trim (topic_text r)] (sender_text r) False"
    by (subst parse_chars_field) (simp_all add: safePayload_def)
  also have "\<dots> = parse_chars rest
            [trim (timestamp_text r), trim (topic_text r), trim (sender_text r)] (payload_text r) False"
    using nq by (subst parse_chars_field) simp_all
  also have "\<dots> = ([trim (timestamp_text r), trim (topic_text r), trim (sender_text r)], payload_text r @ rest)"
    using parse_chars_plain [OF assms(3,4), of "[]"] by simp
  finally show ?thesis by simp
qed

lemma parseCSVLine_save_line:
  assumes "QUOTE \<notin> set (timestamp_text r)" "COMMA \<notin> set (timestamp_text r)"
  shows "parseCSVLine (save_line r) =
         Inr [trim (timestamp_text r), trim (topic_text r), trim (sender_text r), trim (payload_text r)]"
  using parse_chars_save_line [OF assms, of "[NEWLINE]"]
  by (simp add: parseCSVLine_chars save_line_def trim_append_ws)

lemma parseCSVLine_stored_line:
  assumes "QUOTE \<notin> set (timestamp_text r)" "COMMA \<notin> set (timestamp_text r)"
  shows "parseCSVLine (butlast (save_line r)) =
         Inr ([trim (timestamp_text r), trim (topic_text r), trim (sender_text r)] @
              (if payload_text r \<noteq> [] then [trim (payload_text r)] else []))"
proof -
  have "butlast (save_line r) = timestamp_text r @ [COMMA, QUOTE] @ safeTopic r @ [QUOTE, COMMA, QUOTE] @
            safeSender r @ [QUOTE, COMMA, QUOTE] @ safePayload r @ QUOTE # []"
    by (simp add: save_line_def butlast_append)
  then show ?thesis
    using parse_chars_save_line [OF assms, of "[]"]
    by (simp add: parseCSVLine_chars)
qed

section \<open>The log store: facts\<close>

subsection \<open>Splitting into lines\<close>

lemma split_not_Nil [simp]: "split d xs \<noteq> []"
  by (induction xs) (auto split: list.split)

lemma split_append: "split d (xs @ d # ys) = split d xs @ split d ys"
proof (induction xs)
  case Nil
  then show ?case by simp
next
  case (Cons c xs)
  obtain piece pieces where "split d xs = piece # pieces"
    using split_not_Nil [of d xs] by (cases "split d xs") auto
  with Cons show ?case by simp
qed

lemma split_single: "d \<notin> set xs \<Longrightarrow> split d xs = [xs]"
  by (induction xs) auto

lemma tl_split_append: "tl (split d xs @ ys) = tl (split d xs) @ ys"
  by (cases "split d xs") auto

subsection \<open>The scan of a line\<close>

lemma scan_line_blank [simp]: "scan_line tpc [] acc = acc"
  by (simp add: scan_line_def split: prod.split)

lemma scan_line_short:
  "parseCSVLine line = Inr row \<Longrightarrow> length row < 4 \<Longrightarrow> scan_line tpc line acc = acc"
  by (simp add: scan_line_def split: prod.split)

lemma save_line_stored: "save_line r = butlast (save_line r) @ [NEWLINE]"
  by (simp add: save_line_def butlast_append)

lemma scan_line_stored_empty:
  assumes "QUOTE \<notin> set (timestamp_text r)" and "COMMA \<notin> set (timestamp_text r)"
    and "payload_text r = []"
  shows "scan_line tpc (butlast (save_line r)) acc = acc"
  using parseCSVLine_stored_line [OF assms(1,2)] assms(3)
  by (intro scan_line_short [where row = "[trim (timestamp_text r), trim (topic_text r), trim (sender_text r)]"]) simp_all

lemma NEWLINE_stored:
  assumes "NEWLINE \<notin> set (timestamp_text r)" and "NEWLINE \<notin> set (topic_text r)"
    and "NEWLINE \<notin> set (sender_text r)" and "NEWLINE \<notin> set (payload_text r)"
  shows "NEWLINE \<notin> set (butlast (save_line r))"
  using assms
  by (auto simp: save_line_def butlast_append safeTopic_def safeSender_def safePayload_def
      escapeQuotes_def split: if_splits)

lemma snd_scan_line [simp]: "snd (scan_line tpc line acc) = snd acc"
  by (simp add: scan_line_def parseCSVLine_def split: prod.split)

lemma snd_scan_content [simp]: "snd (scan_content tpc content acc) = snd acc"
proof -
  have "snd (foldl (\<lambda>a line. scan_line tpc line a) acc ls) = snd acc" for ls
    by (induction ls arbitrary: acc) auto
  then show ?thesis by (simp add: scan_content_def)
qed

lemma snd_scan_files [simp]: "snd (scan_files st tpc files acc) = snd acc"
  by (induction files arbitrary: acc) (auto split: sum.split)

lemma snd_collect_messages [simp]: "snd (collect_messages st tpc) = []"
  by (simp add: collect_messages_def split: sum.split)

text \<open>\<open>console.warn\<close> is never called: no line makes \<open>parseCSVLine\<close> throw.\<close>

lemma never_warns: "snd (getMessagesForTopic_run Date st tpc limit_arg) = []"
proof -
  obtain res w where c: "collect_messages st tpc = (res, w)"
    by (cases "collect_messages st tpc")
  then have "w = []"
    using snd_collect_messages [of st tpc] by simp
  with c show ?thesis
    by (cases res) (simp_all add: getMessagesForTopic_run_def Let_def)
qed

subsection \<open>Sorting and slicing\<close>

lemma length_sort_insert [simp]: "length (sort_insert f x ys) = Suc (length ys)"
  by (induction ys) auto

lemma set_sort_insert [simp]: "set (sort_insert f x ys) = insert x (set ys)"
  by (induction ys) auto

lemma length_Array_sort [simp]: "length (Array_sort f xs) = length xs"
  by (induction xs) (auto simp: Array_sort_def)

lemma set_Array_sort [simp]: "set (Array_sort f xs) = set xs"
  by (induction xs) (auto simp: Array_sort_def)

lemma sort_insert_insort_key:
  assumes "Date (m_timestamp x) \<noteq> None" and "\<forall>m\<in>set ys. Date (m_timestamp m) \<noteq> None"
  shows "sort_insert (compare_timestamps Date) x ys = insort_key (time_of Date) x ys"
  using assms
  by (induction ys) (auto simp: compare_timestamps_def comparefn_result_def time_of_def)

lemma Array_sort_sort_key:
  assumes "\<forall>m\<in>set xs. Date (m_timestamp m) \<noteq> None"
  shows "Array_sort (compare_timestamps Date) xs = sort_key (time_of Date) xs"
  using assms
proof (induction xs)
  case Nil
  then show ?case by (simp add: Array_sort_def)
next
  case (Cons x xs)
  then have "Array_sort (compare_timestamps Date) xs = sort_key (time_of Date) xs" by simp
  moreover have "\<forall>m\<in>set (sort_key (time_of Date) xs). Date (m_timestamp m) \<noteq> None"
    using Cons.prems by simp
  ultimately show ?case
    using Cons.prems sort_insert_insort_key [of Date x "sort_key (time_of Date) xs"]
    by (simp add: Array_sort_def sort_key_def)
qed

lemma Array_slice_last:
  "1 \<le> limit \<Longrightarrow> Array_slice (- limit) xs = drop (length xs - nat limit) xs"
  by (auto simp: Array_slice_def Let_def max_def nat_diff_distrib' intro: arg_cong [where f = "\<lambda>k. drop k xs"])

subsection \<open>What the scan collects\<close>

lemma scan_line_topic:
  "\<forall>m\<in>set (fst acc). m_topic m = tpc \<Longrightarrow> \<forall>m\<in>set (fst (scan_line tpc line acc)). m_topic m = tpc"
  by (auto simp: scan_line_def split: prod.splits sum.splits if_splits)

lemma scan_content_topic:
  assumes "\<forall>m\<in>set (fst acc). m_topic m = tpc"
  shows "\<forall>m\<in>set (fst (scan_content tpc content acc)). m_topic m = tpc"
proof -
  have "\<forall>m\<in>set (fst acc). m_topic m = tpc \<Longrightarrow>
        \<forall>m\<in>set (fst (foldl (\<lambda>a line. scan_line tpc line a) acc ls)). m_topic m = tpc" for ls acc
  proof (induction ls arbitrary: acc)
    case Nil
    then show ?case by simp
  next
    case (Cons l ls)
    from Cons.IH [OF scan_line_topic [OF Cons.prems]] show ?case by simp
  qed
  then show ?thesis using assms by (simp add: scan_content_def)
qed

lemma scan_files_topic:
  "\<forall>m\<in>set (fst acc). m_topic m = tpc \<Longrightarrow> fst (scan_files st tpc files acc) = Inr ms \<Longrightarrow>
   \<forall>m\<in>set ms. m_topic m = tpc"
proof (induction files arbitrary: acc)
  case Nil
  then show ?case by simp
next
  case (Cons name files)
  show ?case
  proof (cases "readFileSync st name")
    case (Inl e)
    with Cons.prems show ?thesis by simp
  next
    case (Inr content)
    with Cons.prems have "fst (scan_files st tpc files (scan_content tpc content acc)) = Inr ms"
      by simp
    from Cons.IH [OF scan_content_topic [OF Cons.prems(1)] this] show ?thesis .
  qed
qed

lemma collect_messages_topic:
  "fst (collect_messages st tpc) = Inr ms \<Longrightarrow> \<forall>m\<in>set ms. m_topic m = tpc"
  using scan_files_topic [of "([], [])" tpc st _ ms]
  by (auto simp: collect_messages_def split: sum.splits)

lemma scan_files_fails:
  "\<exists>name\<in>set files. isl (readFileSync st name) \<Longrightarrow> isl (fst (scan_files st tpc files acc))"
proof (induction files arbitrary: acc)
  case Nil
  then show ?case by simp
next
  case (Cons name files)
  show ?case
  proof (cases "readFileSync st name")
    case (Inl e)
    then show ?thesis by simp
  next
    case (Inr content)
    with Cons.prems have "\<exists>name\<in>set files. isl (readFileSync st name)" by auto
    from Cons.IH [OF this] Inr show ?thesis by simp
  qed
qed

lemma collect_messages_fails:
  "storage_unavailable st \<Longrightarrow> isl (fst (collect_messages st tpc))"
  using scan_files_fails [of "filter (\<lambda>file. endsWith file (js ''.csv'')) _" st tpc "([], [])"]
  by (auto simp: storage_unavailable_def collect_messages_def list_ex_iff split: sum.splits)

subsection \<open>Lines of a file\<close>

lemma split_line:
  "NEWLINE \<notin> set l \<Longrightarrow> split NEWLINE (l @ NEWLINE # rest) = l # split NEWLINE rest"
  by (simp add: split_append split_single)

lemma split_header_lines:
  "split NEWLINE (header @ rest) = js ''Timestamp,Topic,Sender,Message'' # split NEWLINE rest"
proof -
  have n: "NEWLINE \<notin> set (js ''Timestamp,Topic,Sender,Message'')"
    by (simp add: js_def NEWLINE_def)
  have "header @ rest = js ''Timestamp,Topic,Sender,Message'' @ NEWLINE # rest"
    by (simp add: header_def)
  then show ?thesis by (simp only: split_line [OF n])
qed

lemma split_save_line:
  assumes "line_safe r"
  shows "split NEWLINE (save_line r @ rest) = butlast (save_line r) # split NEWLINE rest"
proof -
  have n: "NEWLINE \<notin> set (butlast (save_line r))"
    using assms by (intro NEWLINE_stored) (simp_all add: line_safe_def)
  have "save_line r @ rest = butlast (save_line r) @ NEWLINE # rest"
    using save_line_stored [of r] by (metis append_Cons append_Nil append_assoc)
  then show ?thesis by (simp only: split_line [OF n])
qed

lemma trim_eq_Nil:
  assumes "trim l = []"
  shows "\<forall>c\<in>set l. isWhiteSpace c"
proof -
  have "dropWhile isWhiteSpace (rev (dropWhile isWhiteSpace l)) = []"
    using assms by (simp add: trim_def)
  then have a: "\<forall>c\<in>set (dropWhile isWhiteSpace l). isWhiteSpace c"
    by (simp add: dropWhile_eq_Nil_conv)
  have "dropWhile isWhiteSpace l = []"
  proof (cases "dropWhile isWhiteSpace l")
    case Nil
    then show ?thesis .
  next
    case (Cons y ys)
    then have "\<not> isWhiteSpace y"
      using hd_dropWhile [of isWhiteSpace l] by auto
    with a Cons show ?thesis by simp
  qed
  then show ?thesis by (simp add: dropWhile_eq_Nil_conv)
qed

lemma parseCSVLine_blank:
  assumes "trim l = []"
  shows "parseCSVLine l = Inr (if l = [] then [] else [[]])"
proof -
  have w: "\<forall>c\<in>set l. isWhiteSpace c" using assms by (rule trim_eq_Nil)
  then have "QUOTE \<notin> set l" "COMMA \<notin> set l" by auto
  then have "parse_chars l [] [] False = ([], l)"
    using parse_chars_plain [of l "[]" "[]" "[]"] by simp
  then show ?thesis using assms by (simp add: parseCSVLine_chars)
qed

lemma scan_line_match:
  assumes "parseCSVLine l = Inr row" and "4 \<le> length row" and "row ! 1 = tpc"
  shows "scan_line tpc l (ms, ws) = (ms @ [row_message row], ws)"
proof -
  have "trim l \<noteq> []"
    using parseCSVLine_blank [of l] assms(1,2) by (auto split: if_splits)
  then show ?thesis
    using assms by (simp add: scan_line_def row_message_def)
qed

lemma scan_content_lines:
  assumes "NEWLINE \<notin> set h"
    and "NEWLINE \<notin> set l1" and "parseCSVLine l1 = Inr row1" and "4 \<le> length row1" and "row1 ! 1 = tpc"
    and "NEWLINE \<notin> set bad" and "parseCSVLine bad = Inr row" and "length row < 4"
    and "NEWLINE \<notin> set l2" and "parseCSVLine l2 = Inr row2" and "4 \<le> length row2" and "row2 ! 1 = tpc"
  shows "scan_content tpc (h @ NEWLINE # l1 @ NEWLINE # bad @ NEWLINE # l2 @ [NEWLINE]) (ms, ws) =
         (ms @ [row_message row1, row_message row2], ws)"
proof -
  have "split NEWLINE (h @ NEWLINE # l1 @ NEWLINE # bad @ NEWLINE # l2 @ [NEWLINE]) =
        [h, l1, bad, l2, []]"
    using assms(1,2,6,9) by (simp add: split_line)
  moreover have "scan_line tpc l1 (ms, ws) = (ms @ [row_message row1], ws)"
    using assms(3-5) by (rule scan_line_match)
  moreover have "scan_line tpc bad (ms @ [row_message row1], ws) = (ms @ [row_message row1], ws)"
    using assms(7,8) by (rule scan_line_short)
  moreover have "scan_line tpc l2 (ms @ [row_message row1], ws) =
        ((ms @ [row_message row1]) @ [row_message row2], ws)"
    using assms(10-12) by (rule scan_line_match)
  ultimately show ?thesis by (simp add: scan_content_def)
qed

lemma Array_slice_all: "int (length xs) \<le> limit \<Longrightarrow> Array_slice (- limit) xs = xs"
  by (auto simp: Array_slice_def Let_def max_def)

lemma scan_content_append_empty_body:
  assumes "line_safe r" and "payload_text r = []"
  shows "scan_content tpc (content @ [NEWLINE] @ save_line r) acc =
         scan_content tpc (content @ [NEWLINE]) acc"
proof -
  have l: "split NEWLINE (save_line r) = [butlast (save_line r), []]"
    using split_save_line [OF assms(1), of "[]"] by simp
  have s: "scan_line tpc (butlast (save_line r)) a = a" for a
    using assms by (intro scan_line_stored_empty) (simp_all add: line_safe_def)
  have "tl (split NEWLINE (content @ [NEWLINE] @ save_line r)) =
        tl (split NEWLINE content) @ [butlast (save_line r), []]"
    using split_append [of NEWLINE content "save_line r"] l by (simp add: tl_split_append)
  moreover have "tl (split NEWLINE (content @ [NEWLINE])) = tl (split NEWLINE content) @ [[]]"
    using split_append [of NEWLINE content "[]"] by (simp add: tl_split_append)
  ultimately show ?thesis by (simp add: scan_content_def s)
qed

subsection \<open>\<open>parseInt\<close>\<close>



section \<open>The topic registry: facts\<close>

lemma finite_joined_clients:
  "finite (dom (joinedTopic s)) \<Longrightarrow> finite (joined_clients s t)"
  by (rule finite_subset [of _ "dom (joinedTopic s)"]) (auto simp: joined_clients_def)

lemma count_of_decrement:
  "count_of (decrement o' s) t = (if t = o' then max 0 (the (userCounts s o') - 1) else count_of s t)"
  by (simp add: decrement_def count_of_def Let_def)

lemma joinedTopic_decrement [simp]: "joinedTopic (decrement o' s) = joinedTopic s"
  by (simp add: decrement_def Let_def)

lemma joined_clients_decrement [simp]: "joined_clients (decrement o' s) t = joined_clients s t"
  by (simp add: joined_clients_def)

lemma on_joinTopic_left:
  "on_joinTopic c t s =
     (left c s)\<lparr>userCounts := (userCounts (left c s))(t \<mapsto> count_of (left c s) t + 1),
       joinedTopic := (joinedTopic (left c s))(c \<mapsto> Some t),
       emitted := emitted (left c s) @ [(t, count_of (left c s) t + 1)]\<rparr>"
  by (simp add: on_joinTopic_def left_def Let_def count_of_def split: option.split)

lemma on_disconnect_left:
  "on_disconnect c s = (left c s)\<lparr>joinedTopic := (joinedTopic (left c s))(c := None)\<rparr>"
  by (simp add: on_disconnect_def left_def Let_def)

lemma joinedTopic_left [simp]: "joinedTopic (left c s) = joinedTopic s"
  by (simp add: left_def Let_def)

lemma joined_clients_left [simp]: "joined_clients (left c s) t = joined_clients s t"
  by (simp add: joined_clients_def)

lemma count_of_left:
  assumes "consistent s" and "joinedTopic s c = Some old"
  shows "count_of (left c s) t =
         (if old = Some t \<and> t \<noteq> [] then count_of s t - 1 else count_of s t)"
proof (cases "truthy_topic old")
  case False
  then show ?thesis
    using assms(2) by (auto simp: left_def truthy_topic_def split: option.splits)
next
  case True
  then obtain o' where o: "old = Some o'" "o' \<noteq> []"
    by (auto simp: truthy_topic_def split: option.splits)
  have "c \<in> joined_clients s o'"
    using assms(2) o by (simp add: joined_clients_def)
  moreover have "finite (joined_clients s o')"
    using assms(1) by (simp add: consistent_def finite_joined_clients)
  ultimately have "card (joined_clients s o') \<noteq> 0" by auto
  then have pos: "0 < count_of s o'"
    using assms(1) o by (simp add: consistent_def)
  then have tc: "truthy_count (userCounts s o')" and v: "the (userCounts s o') = count_of s o'"
    by (auto simp: truthy_count_def count_of_def split: option.splits)
  have "left c s = decrement o' s"
    using assms(2) o True tc by (simp add: left_def)
  then show ?thesis
    using o pos v by (auto simp: count_of_decrement)
qed

lemma joined_clients_connect:
  "joinedTopic s c = None \<Longrightarrow>
   joined_clients (s\<lparr>joinedTopic := (joinedTopic s)(c \<mapsto> None)\<rparr>) t' = joined_clients s t'"
  by (auto simp: joined_clients_def)

lemma count_of_update:
  "count_of (s\<lparr>userCounts := (userCounts s)(t \<mapsto> n), joinedTopic := j, emitted := e\<rparr>) t' =
     (if t' = t then n else count_of s t')"
  by (simp add: count_of_def)

lemma count_of_joinedTopic_update [simp]:
  "count_of (s\<lparr>joinedTopic := j\<rparr>) t = count_of s t"
  by (simp add: count_of_def)

lemma in_joined_clients: "c \<in> joined_clients s t \<longleftrightarrow> joinedTopic s c = Some (Some t)"
  by (simp add: joined_clients_def)

lemma consistent_step:
  assumes "consistent s"
  shows "consistent (step s e)"
proof (cases e)
  case (Connection c)
  then show ?thesis
    using assms
    by (auto simp: consistent_def on_connection_def joined_clients_connect)
next
  case (JoinTopic c t)
  show ?thesis
  proof (cases "joinedTopic s c")
    case None
    with JoinTopic assms show ?thesis by simp
  next
    case (Some old)
    have fin: "finite (joined_clients s u)" for u
      using assms by (simp add: consistent_def finite_joined_clients)
    have cnt: "u \<noteq> [] \<Longrightarrow> count_of s u = int (card (joined_clients s u))" for u
      using assms by (simp add: consistent_def)
    have nn: "0 \<le> count_of s u" for u
      using assms by (simp add: consistent_def)
    have mem: "c \<in> joined_clients s u \<longleftrightarrow> old = Some u" for u
      using Some by (simp add: in_joined_clients)
    have c1: "count_of (on_joinTopic c t s) u =
        (if u = t then (if old = Some t \<and> t \<noteq> [] then count_of s t else count_of s t + 1)
         else if old = Some u \<and> u \<noteq> [] then count_of s u - 1 else count_of s u)" for u
      by (simp add: on_joinTopic_left count_of_update count_of_left [OF assms Some])
    have j1: "joined_clients (on_joinTopic c t s) u =
        (if u = t then insert c (joined_clients s u) else joined_clients s u - {c})" for u
      by (auto simp: on_joinTopic_left joined_clients_def)
    have pos: "old = Some u \<Longrightarrow> u \<noteq> [] \<Longrightarrow> 0 < card (joined_clients s u)" for u
      using fin [of u] mem [of u] by (auto simp: card_gt_0_iff)
    have a: "finite (dom (joinedTopic (on_joinTopic c t s)))"
      using assms by (simp add: on_joinTopic_left consistent_def)
    have b: "0 \<le> count_of (on_joinTopic c t s) u" for u
      using nn [of u] nn [of t] pos [of u] cnt [of u] by (auto simp: c1)
    have d: "u \<noteq> [] \<Longrightarrow> count_of (on_joinTopic c t s) u = int (card (joined_clients (on_joinTopic c t s) u))" for u
      using cnt [of u] fin [of u] mem [of u] pos [of u]
      by (auto simp: c1 j1 card_insert_if insert_absorb card_Diff_singleton_if)
    show ?thesis
      using JoinTopic Some a b d by (simp add: consistent_def)
  qed
next
  case (Disconnect c)
  show ?thesis
  proof (cases "joinedTopic s c")
    case None
    with Disconnect assms show ?thesis by simp
  next
    case (Some old)
    have fin: "finite (joined_clients s u)" for u
      using assms by (simp add: consistent_def finite_joined_clients)
    have cnt: "u \<noteq> [] \<Longrightarrow> count_of s u = int (card (joined_clients s u))" for u
      using assms by (simp add: consistent_def)
    have nn: "0 \<le> count_of s u" for u
      using assms by (simp add: consistent_def)
    have mem: "c \<in> joined_clients s u \<longleftrightarrow> old = Some u" for u
      using Some by (simp add: in_joined_clients)
    have c1: "count_of (on_disconnect c s) u =
        (if old = Some u \<and> u \<noteq> [] then count_of s u - 1 else count_of s u)" for u
      by (simp add: on_disconnect_left count_of_left [OF assms Some])
    have j1: "joined_clients (on_disconnect c s) u = joined_clients s u - {c}" for u
      by (auto simp: on_disconnect_left joined_clients_def)
    have pos: "old = Some u \<Longrightarrow> u \<noteq> [] \<Longrightarrow> 0 < card (joined_clients s u)" for u
      using fin [of u] mem [of u] by (auto simp: card_gt_0_iff)
    have a: "finite (dom (joinedTopic (on_disconnect c s)))"
      using assms by (simp add: on_disconnect_left consistent_def)
    have b: "0 \<le> count_of (on_disconnect c s) u" for u
      using nn [of u] pos [of u] cnt [of u] by (auto simp: c1)
    have d: "u \<noteq> [] \<Longrightarrow> count_of (on_disconnect c s) u = int (card (joined_clients (on_disconnect c s) u))" for u
      using cnt [of u] fin [of u] mem [of u] pos [of u]
      by (auto simp: c1 j1 card_Diff_singleton_if)
    show ?thesis
      using Disconnect Some a b d by (simp add: consistent_def)
  qed
qed

lemma consistent_foldl: "consistent s \<Longrightarrow> consistent (foldl step s events)"
  by (induction events arbitrary: s) (auto simp: consistent_step)

lemma consistent_initial: "consistent initial"
  by (simp add: consistent_def initial_def count_of_def joined_clients_def)

lemma consistent_run: "consistent (run events)"
  by (simp add: run_def consistent_foldl consistent_initial)

lemma emitted_left:
  assumes "consistent s" and "joinedTopic s c = Some (Some t)" and "t \<noteq> []"
  shows "emitted (left c s) = emitted s @ [(t, count_of s t - 1)]"
proof -
  have "c \<in> joined_clients s t"
    using assms(2) by (simp add: joined_clients_def)
  moreover have "finite (joined_clients s t)"
    using assms(1) by (simp add: consistent_def finite_joined_clients)
  ultimately have "card (joined_clients s t) \<noteq> 0" by auto
  then have pos: "0 < count_of s t"
    using assms(1,3) by (simp add: consistent_def)
  then have tc: "truthy_count (userCounts s t)" and v: "the (userCounts s t) = count_of s t"
    by (auto simp: truthy_count_def count_of_def split: option.splits)
  have "left c s = decrement t s"
    using assms(2,3) tc by (simp add: left_def truthy_topic_def)
  then show ?thesis
    using pos v by (simp add: decrement_def Let_def)
qed

lemma rejoin_same_topic:
  assumes "joinedTopic (run events) c = Some (Some t)" and "t \<noteq> []"
  shows "count_of (step (run events) (JoinTopic c t)) t = count_of (run events) t \<and>
         emitted (step (run events) (JoinTopic c t)) =
           emitted (run events) @ [(t, count_of (run events) t - 1), (t, count_of (run events) t)]"
  using assms count_of_left [OF consistent_run assms(1), of t]
    emitted_left [OF consistent_run assms]
  by (simp add: on_joinTopic_left count_of_update)

text \<open>
  For every sequence of events, no count is negative, and the count of every non-empty
  topic is the number of connected sockets that have joined it. This is a fact of the model:
  it does not cover a topic that names a property \<open>userCounts\<close> inherits.
\<close>

lemma counts_of_nonempty_topics:
  "(\<forall>t. 0 \<le> count_of (run events) t) \<and>
   (\<forall>t. t \<noteq> [] \<longrightarrow> count_of (run events) t = int (card (joined_clients (run events) t)))"
  using consistent_run [of events] by (simp add: consistent_def)

section \<open>The codec: lines with and without quotes\<close>

lemma parse_chars_escaped_open:
  "parse_chars (escapeQuotes u) result current True = (result, current @ u)"
  by (induction u arbitrary: current) (auto simp: escapeQuotes_def)

lemma parse_chars_unclosed:
  assumes "inQuotes \<longleftrightarrow> odd (count_list p QUOTE)" and "p = [] \<or> last p \<noteq> QUOTE"
  shows "parse_chars (p @ QUOTE # escapeQuotes u) result current inQuotes =
         (case parse_chars p result current inQuotes of
            (result', current') \<Rightarrow> (result', current' @ u))"
  using assms
proof (induction p result current inQuotes rule: parse_chars.induct)
  case (1 result current inQuotes)
  then show ?case by (simp add: parse_chars_escaped_open)
next
  case (2 c cs result current inQuotes)
  show ?case
  proof (cases "cs = []")
    case True
    with "2.prems" have c: "c \<noteq> QUOTE" and q: "\<not> inQuotes" by auto
    show ?thesis
      using True c q by (simp add: parse_chars_escaped_open)
  next
    case False
    then have hd: "hd (cs @ QUOTE # escapeQuotes u) = hd cs"
      and tl: "tl (cs @ QUOTE # escapeQuotes u) = tl cs @ QUOTE # escapeQuotes u"
      and l: "last cs \<noteq> QUOTE"
      using "2.prems" by auto
    show ?thesis
    proof (cases "c = QUOTE \<and> inQuotes \<and> hd cs = QUOTE")
      case True
      obtain d ds where cs: "cs = d # ds" using False by (cases cs) auto
      with True have d: "d = QUOTE" by simp
      have "ds \<noteq> []" using l cs d by auto
      then have p2: "tl cs = [] \<or> last (tl cs) \<noteq> QUOTE" using l cs by auto
      have p1: "inQuotes \<longleftrightarrow> odd (count_list (tl cs) QUOTE)"
        using "2.prems"(1) True cs d by simp
      have b: "c = QUOTE \<and> inQuotes \<and> cs \<noteq> [] \<and> hd cs = QUOTE"
        using True False by simp
      from "2.IH"(1) [OF b p1 p2] b
      show ?thesis by (simp add: hd tl)
    next
      case nt: False
      then have nb: "\<not> (c = QUOTE \<and> inQuotes \<and> cs \<noteq> [] \<and> hd cs = QUOTE)" by simp
      have l': "cs = [] \<or> last cs \<noteq> QUOTE" using l by simp
      show ?thesis
      proof (cases "c = QUOTE")
        case True
        have p1: "(\<not> inQuotes) \<longleftrightarrow> odd (count_list cs QUOTE)"
          using "2.prems"(1) True by simp
        from "2.IH"(2) [OF nb True p1 l'] nt True False
        show ?thesis by (cases inQuotes) (simp_all add: hd)
      next
        case cq: False
        have p1: "inQuotes \<longleftrightarrow> odd (count_list cs QUOTE)"
          using "2.prems"(1) cq by simp
        show ?thesis
        proof (cases "c = COMMA \<and> \<not> inQuotes")
          case True
          from "2.IH"(3) [OF nb cq True p1 l'] cq True
          show ?thesis by (cases inQuotes) simp_all
        next
          case f: False
          from "2.IH"(4) [OF nb cq f p1 l'] cq f
          show ?thesis by (cases inQuotes) simp_all
        qed
      qed
    qed
  qed
qed

lemma parse_chars_unquoted:
  "QUOTE \<notin> set p \<Longrightarrow>
   parse_chars p result current False =
     (result @ map trim (butlast ((current @ hd (split COMMA p)) # tl (split COMMA p))),
      last ((current @ hd (split COMMA p)) # tl (split COMMA p)))"
proof (induction p arbitrary: result current)
  case Nil
  then show ?case by simp
next
  case (Cons c cs)
  obtain piece pieces where s: "split COMMA cs = piece # pieces"
    using split_not_Nil [of COMMA cs] by (cases "split COMMA cs") auto
  from Cons show ?case by (auto simp: s)
qed

lemma parseCSVLine_unquoted:
  assumes "QUOTE \<notin> set p"
  shows "parseCSVLine p =
         Inr (map trim (if last (split COMMA p) = [] then butlast (split COMMA p)
                        else split COMMA p))"
proof -
  obtain piece pieces where s: "split COMMA p = piece # pieces"
    using split_not_Nil [of COMMA p] by (cases "split COMMA p") auto
  have "map trim (piece # pieces) = map trim (butlast (piece # pieces)) @ [trim (last (piece # pieces))]"
    by (metis append_butlast_last_id list.distinct(1) list.simps(9) map_append list.map(1))
  then show ?thesis
    using parse_chars_unquoted [OF assms, of "[]" "[]"]
    by (simp add: parseCSVLine_chars s)
qed

section \<open>The codec: claims\<close>

text \<open>
  C1, as stated, fails: \<open>parseCSVLine\<close> trims every field it pushes, so a body with a
  leading space does not come back. The scenario's request with the body \<open>" sunny"\<close> decodes
  to the body \<open>"sunny"\<close>.
\<close>

theorem round_trip_counterexample:
  "parseCSVLine (save_line (sunny_request\<lparr>body_payload := Some (js '' sunny'')\<rparr>)) =
     Inr [js ''2024-01-01T00:00:00Z'', js ''weather'', js ''alice'', js ''sunny''] \<and>
   payload_text (sunny_request\<lparr>body_payload := Some (js '' sunny'')\<rparr>) \<noteq> js ''sunny''"
  by code_simp

text \<open>
  C1, amended: when the timestamp text holds no quote and no comma, and topic, sender and
  body have no white space at either end, decoding the line that \<open>POST /save\<close> builds gives
  back the four texts, commas and quotes inside topic, sender and body included (the
  timestamp comes back trimmed; the sender is the request's sender, or its username when the
  sender is empty). The same holds for the line without its line break, which is what the
  query reads from the file, when the body is not empty.
\<close>

theorem save_line_round_trip:
  assumes "QUOTE \<notin> set (timestamp_text r)" and "COMMA \<notin> set (timestamp_text r)"
    and "trim (topic_text r) = topic_text r" and "trim (sender_text r) = sender_text r"
    and "trim (payload_text r) = payload_text r"
  shows "parseCSVLine (save_line r) =
           Inr [trim (timestamp_text r), topic_text r, sender_text r, payload_text r] \<and>
         (payload_text r \<noteq> [] \<longrightarrow>
          parseCSVLine (butlast (save_line r)) =
            Inr [trim (timestamp_text r), topic_text r, sender_text r, payload_text r])"
  using parseCSVLine_save_line [OF assms(1,2)] parseCSVLine_stored_line [OF assms(1,2)] assms(3-5)
  by simp

theorem save_line_round_trip_witness:
  "QUOTE \<notin> set (timestamp_text sunny_request) \<and> COMMA \<notin> set (timestamp_text sunny_request) \<and>
   trim (topic_text sunny_request) = topic_text sunny_request \<and>
   trim (sender_text sunny_request) = sender_text sunny_request \<and>
   trim (payload_text sunny_request) = payload_text sunny_request \<and>
   payload_text sunny_request \<noteq> [] \<and>
   parseCSVLine (save_line sunny_request) =
     Inr [js ''2024-01-01T00:00:00Z'', js ''weather'', js ''alice'', js ''sunny''] \<and>
   parseCSVLine (butlast (save_line sunny_request)) =
     Inr [js ''2024-01-01T00:00:00Z'', js ''weather'', js ''alice'', js ''sunny'']"
proof -
  have h1: "QUOTE \<notin> set (timestamp_text sunny_request)" by code_simp
  have h2: "COMMA \<notin> set (timestamp_text sunny_request)" by code_simp
  have h3: "trim (topic_text sunny_request) = topic_text sunny_request" by code_simp
  have h4: "trim (sender_text sunny_request) = sender_text sunny_request" by code_simp
  have h5: "trim (payload_text sunny_request) = payload_text sunny_request" by code_simp
  have h6: "payload_text sunny_request \<noteq> []" by code_simp
  have e: "[trim (timestamp_text sunny_request), topic_text sunny_request,
            sender_text sunny_request, payload_text sunny_request] =
           [js ''2024-01-01T00:00:00Z'', js ''weather'', js ''alice'', js ''sunny'']" by code_simp
  show ?thesis
    using save_line_round_trip [OF h1 h2 h3 h4 h5] h1 h2 h3 h4 h5 h6 e by simp
qed

text \<open>
  C8: for the body \<open>He said "hi"\<close> the handler renders the field \<open>"He said ""hi"""\<close>,
  the saved line ends with that field and the line break, and \<open>parseCSVLine\<close> gives the
  body \<open>He said "hi"\<close> back: from the line as built, from the line as the query reads it
  (without the line break), and from the field alone.
\<close>

theorem quote_doubling:
  "[QUOTE] @ safePayload (sunny_request\<lparr>body_payload := Some he_said_hi\<rparr>) @ [QUOTE] = he_said_hi_field \<and>
   save_line (sunny_request\<lparr>body_payload := Some he_said_hi\<rparr>) =
     js ''2024-01-01T00:00:00Z,'' @ [QUOTE] @ js ''weather'' @ [QUOTE, COMMA, QUOTE] @ js ''alice'' @
     [QUOTE, COMMA] @ he_said_hi_field @ [NEWLINE] \<and>
   parseCSVLine (save_line (sunny_request\<lparr>body_payload := Some he_said_hi\<rparr>)) =
     Inr [js ''2024-01-01T00:00:00Z'', js ''weather'', js ''alice'', he_said_hi] \<and>
   parseCSVLine (butlast (save_line (sunny_request\<lparr>body_payload := Some he_said_hi\<rparr>))) =
     Inr [js ''2024-01-01T00:00:00Z'', js ''weather'', js ''alice'', he_said_hi] \<and>
   parseCSVLine he_said_hi_field = Inr [he_said_hi]"
  by code_simp

text \<open>
  C4, as stated, fails: \<open>parseCSVLine\<close> has no failing exit. The line \<open>a,"b,c\<close>, whose
  quote is never closed, decodes to the two fields \<open>a\<close> and \<open>b,c\<close>.
\<close>

theorem unterminated_quote_counterexample:
  "parseCSVLine (js ''a,'' @ [QUOTE] @ js ''b,c'') = Inr [js ''a'', js ''b,c''] \<and>
   parseCSVLine (js ''a,'' @ [QUOTE] @ js ''b,c'') \<noteq> Inl MalformedRecord"
  by code_simp

text \<open>
  C4, amended: \<open>parseCSVLine\<close> returns a field list for every line. For a line without
  a quote character the list is the pieces between the commas, each trimmed, an empty last
  piece left out. For a line with an unterminated quote, that is a part \<open>p\<close> with an even
  number of quote characters and no quote character at its end, then the quote, then a text
  in which every quote character is doubled, the list is the fields that the loop closes
  in \<open>p\<close>, and one last field: what \<open>p\<close> leaves in \<open>current\<close> followed by the text after
  the quote, its commas included and its doubled quotes halved, trimmed (no last field when
  this is empty).
\<close>

theorem parseCSVLine_never_fails:
  "(\<exists>row. parseCSVLine line = Inr row) \<and>
   (QUOTE \<notin> set line \<longrightarrow>
    parseCSVLine line =
      Inr (map trim (if last (split COMMA line) = [] then butlast (split COMMA line)
                     else split COMMA line))) \<and>
   (even (count_list p QUOTE) \<and> (p = [] \<or> last p \<noteq> QUOTE) \<longrightarrow>
    parseCSVLine (p @ QUOTE # escapeQuotes u) =
      (case parse_while p 0 [] [] False of
         (result, current) \<Rightarrow>
           Inr (if current @ u \<noteq> [] then result @ [trim (current @ u)] else result)))"
proof -
  have a: "\<exists>row. parseCSVLine line = Inr row"
    by (simp add: parseCSVLine_def split: prod.split)
  have c: "parseCSVLine (p @ QUOTE # escapeQuotes u) =
      (case parse_while p 0 [] [] False of
         (result, current) \<Rightarrow>
           Inr (if current @ u \<noteq> [] then result @ [trim (current @ u)] else result))"
    if "even (count_list p QUOTE)" and "p = [] \<or> last p \<noteq> QUOTE"
    using parse_chars_unclosed [of False p u "[]" "[]"] that
    by (simp add: parseCSVLine_chars parse_while_chars split: prod.split)
  show ?thesis
    using a c parseCSVLine_unquoted [of line] by blast
qed

theorem parseCSVLine_never_fails_witness:
  "QUOTE \<notin> set (js ''a, b,'') \<and>
   parseCSVLine (js ''a, b,'') = Inr [js ''a'', js ''b''] \<and>
   even (count_list (js ''a,'') QUOTE) \<and> last (js ''a,'') \<noteq> QUOTE \<and>
   parseCSVLine (js ''a,'' @ QUOTE # escapeQuotes (js ''b,c'')) = Inr [js ''a'', js ''b,c'']"
proof -
  have h1: "QUOTE \<notin> set (js ''a, b,'')" by code_simp
  have e1: "map trim (if last (split COMMA (js ''a, b,'')) = [] then butlast (split COMMA (js ''a, b,''))
      else split COMMA (js ''a, b,'')) = [js ''a'', js ''b'']" by code_simp
  have h2: "even (count_list (js ''a,'') QUOTE)" by code_simp
  have h3: "last (js ''a,'') \<noteq> QUOTE" by code_simp
  have e2: "(case parse_while (js ''a,'') 0 [] [] False of
         (result, current) \<Rightarrow>
           Inr (if current @ js ''b,c'' \<noteq> [] then result @ [trim (current @ js ''b,c'')] else result)) =
      (Inr [js ''a'', js ''b,c''] :: error + jsstring list)" by code_simp
  note t = parseCSVLine_never_fails [of "js ''a, b,''" "js ''a,''" "js ''b,c''"]
  have c1: "parseCSVLine (js ''a, b,'') = Inr [js ''a'', js ''b'']"
    using t [THEN conjunct2, THEN conjunct1] h1 unfolding e1 by simp
  have c2: "parseCSVLine (js ''a,'' @ QUOTE # escapeQuotes (js ''b,c'')) = Inr [js ''a'', js ''b,c'']"
    using t [THEN conjunct2, THEN conjunct2] h2 h3 unfolding e2 by simp
  show ?thesis
    using h1 c1 h2 h3 c2 by (intro conjI)
qed

section \<open>The log store: claims\<close>

text \<open>
  C3, as stated, fails: a record whose timestamp is no date does not sort first. The
  comparator gives \<open>NaN\<close> for it, which the sort reads as "equal", so the record stays
  where the scan found it: here after the dated record.
\<close>

theorem undated_not_first_counterexample:
  "getMessagesForTopic example_Date undated_file (js ''weather'') (Some 10) =
     [message_of sunny_request, message_of undated_request] \<and>
   example_Date (m_timestamp (message_of sunny_request)) = Some 1704067200000 \<and>
   example_Date (m_timestamp (message_of undated_request)) = None"
  by code_simp

text \<open>
  C3, amended: when the log files can be read, the timestamp of every matching record is a
  valid date and \<open>limit\<close> is at least 1, \<open>getMessagesForTopic\<close> returns the last
  \<open>limit\<close> records (all of them when there are fewer) of the matching records sorted by
  time, ascending and stably; every returned record has the requested topic.
\<close>

theorem query_sorted_last:
  assumes "fst (collect_messages st tpc) = Inr messages"
    and "\<forall>m\<in>set messages. Date (m_timestamp m) \<noteq> None"
    and "1 \<le> limit"
  shows "getMessagesForTopic Date st tpc (Some limit) =
           drop (length messages - nat limit) (sort_key (time_of Date) messages) \<and>
         sorted (map (time_of Date) (getMessagesForTopic Date st tpc (Some limit))) \<and>
         length (getMessagesForTopic Date st tpc (Some limit)) = min (nat limit) (length messages) \<and>
         (\<forall>m\<in>set (getMessagesForTopic Date st tpc (Some limit)). m_topic m = tpc)"
proof -
  have r: "getMessagesForTopic Date st tpc (Some limit) =
           drop (length messages - nat limit) (sort_key (time_of Date) messages)"
    using assms Array_sort_sort_key [OF assms(2)]
    by (cases "collect_messages st tpc")
       (simp add: getMessagesForTopic_def getMessagesForTopic_run_def Array_slice_last)
  have s: "sorted (map (time_of Date) (drop (length messages - nat limit) (sort_key (time_of Date) messages)))"
    by (simp add: drop_map [symmetric] del: drop_map)
  have t: "\<forall>m\<in>set (drop (length messages - nat limit) (sort_key (time_of Date) messages)). m_topic m = tpc"
    using collect_messages_topic [OF assms(1)] by (auto dest: in_set_dropD)
  show ?thesis
    using s t assms(3) unfolding r by auto
qed

theorem query_sorted_last_witness:
  "fst (collect_messages two_files (js ''weather'')) =
     Inr [message_of rainy_request, message_of sunny_request] \<and>
   example_Date (m_timestamp (message_of rainy_request)) \<noteq> None \<and>
   example_Date (m_timestamp (message_of sunny_request)) \<noteq> None \<and>
   (1::int) \<le> 1 \<and>
   getMessagesForTopic example_Date two_files (js ''weather'') (Some 1) = [message_of rainy_request] \<and>
   sorted (map (time_of example_Date)
     (getMessagesForTopic example_Date two_files (js ''weather'') (Some 1)))"
proof -
  have h1: "fst (collect_messages two_files (js ''weather'')) =
      Inr [message_of rainy_request, message_of sunny_request]"
    by code_simp
  have h2: "\<forall>m\<in>set [message_of rainy_request, message_of sunny_request].
      example_Date (m_timestamp m) \<noteq> None"
    by code_simp
  have h3: "(1::int) \<le> 1" by simp
  have e: "drop (length [message_of rainy_request, message_of sunny_request] - nat 1)
      (sort_key (time_of example_Date) [message_of rainy_request, message_of sunny_request]) =
      [message_of rainy_request]"
    by code_simp
  show ?thesis
    using query_sorted_last [OF h1 h2 h3] h1 h2 e by simp
qed

text \<open>
  C6, as stated, fails in its last part: the line \<open>not a record\<close> between two records is
  skipped and both records are returned, but nothing is recorded for it: \<open>console.warn\<close>
  is never called.
\<close>

theorem no_warning_counterexample:
  "parseCSVLine (js ''not a record'') = Inr [js ''not a record''] \<and>
   getMessagesForTopic_run example_Date malformed_file (js ''weather'') (Some 10) =
     ([message_of sunny_request, message_of rainy_request], [])"
  by code_simp

text \<open>
  C6, amended: a line that parses to fewer than 4 fields is skipped and the scan goes on. In
  a log file made of a first line and then three lines, none with a line break inside, where
  the first and the third parse to at least 4 fields with the requested topic as second
  field and the second parses to fewer than 4 fields, the scan collects the records of the
  first and the third line, and the query returns both (for a limit of at least 2). Nothing
  is printed by \<open>console.warn\<close> for the skipped line and no error is raised.
\<close>

theorem malformed_line_skipped:
  assumes "NEWLINE \<notin> set h"
    and "NEWLINE \<notin> set l1" and "parseCSVLine l1 = Inr row1" and "4 \<le> length row1" and "row1 ! 1 = tpc"
    and "NEWLINE \<notin> set bad" and "parseCSVLine bad = Inr row" and "length row < 4"
    and "NEWLINE \<notin> set l2" and "parseCSVLine l2 = Inr row2" and "4 \<le> length row2" and "row2 ! 1 = tpc"
    and "endsWith name (js ''.csv'')" and "2 \<le> limit"
  shows "scan_content tpc (h @ NEWLINE # l1 @ NEWLINE # bad @ NEWLINE # l2 @ [NEWLINE]) ([], []) =
           ([row_message row1, row_message row2], []) \<and>
         (\<exists>result. getMessagesForTopic_run Date
              (Some [(name, Some (h @ NEWLINE # l1 @ NEWLINE # bad @ NEWLINE # l2 @ [NEWLINE]))])
              tpc (Some limit) = (result, []) \<and>
            set result = {row_message row1, row_message row2} \<and> length result = 2)"
proof -
  let ?content = "h @ NEWLINE # l1 @ NEWLINE # bad @ NEWLINE # l2 @ [NEWLINE]"
  have sc: "scan_content tpc ?content ([], []) = ([row_message row1, row_message row2], [])"
    using scan_content_lines [OF assms(1-12), of "[]" "[]"] by simp
  then have "collect_messages (Some [(name, Some ?content)]) tpc =
        (Inr [row_message row1, row_message row2], [])"
    using assms(13) by (simp add: collect_messages_def readdirSync_def readFileSync_def)
  then have "getMessagesForTopic_run Date (Some [(name, Some ?content)]) tpc (Some limit) =
        (Array_sort (compare_timestamps Date) [row_message row1, row_message row2], [])"
    using assms(14) by (simp add: getMessagesForTopic_run_def Array_slice_all)
  then show ?thesis using sc by simp
qed

theorem malformed_line_skipped_witness:
  "NEWLINE \<notin> set (js ''Timestamp,Topic,Sender,Message'') \<and>
   NEWLINE \<notin> set (butlast (save_line sunny_request)) \<and>
   parseCSVLine (butlast (save_line sunny_request)) =
     Inr [js ''2024-01-01T00:00:00Z'', js ''weather'', js ''alice'', js ''sunny''] \<and>
   NEWLINE \<notin> set (js ''not a record'') \<and>
   parseCSVLine (js ''not a record'') = Inr [js ''not a record''] \<and>
   NEWLINE \<notin> set (butlast (save_line rainy_request)) \<and>
   parseCSVLine (butlast (save_line rainy_request)) =
     Inr [js ''2024-01-02T00:00:00Z'', js ''weather'', js ''adam'', js ''rainy''] \<and>
   endsWith (js ''alice_messages.csv'') (js ''.csv'') \<and> (2::int) \<le> 10 \<and>
   scan_content (js ''weather'')
     (js ''Timestamp,Topic,Sender,Message'' @ NEWLINE # butlast (save_line sunny_request) @
      NEWLINE # js ''not a record'' @ NEWLINE # butlast (save_line rainy_request) @ [NEWLINE])
     ([], []) = ([message_of sunny_request, message_of rainy_request], [])"
proof -
  let ?r1 = "[js ''2024-01-01T00:00:00Z'', js ''weather'', js ''alice'', js ''sunny'']"
  let ?r2 = "[js ''2024-01-02T00:00:00Z'', js ''weather'', js ''adam'', js ''rainy'']"
  have h: "NEWLINE \<notin> set (js ''Timestamp,Topic,Sender,Message'')" by code_simp
  have a1: "NEWLINE \<notin> set (butlast (save_line sunny_request))" by code_simp
  have a2: "parseCSVLine (butlast (save_line sunny_request)) = Inr ?r1" by code_simp
  have a3: "4 \<le> length ?r1" by simp
  have a4: "?r1 ! 1 = js ''weather''" by simp
  have b1: "NEWLINE \<notin> set (js ''not a record'')" by code_simp
  have b2: "parseCSVLine (js ''not a record'') = Inr [js ''not a record'']" by code_simp
  have b3: "length [js ''not a record''] < 4" by simp
  have c1: "NEWLINE \<notin> set (butlast (save_line rainy_request))" by code_simp
  have c2: "parseCSVLine (butlast (save_line rainy_request)) = Inr ?r2" by code_simp
  have c3: "4 \<le> length ?r2" by simp
  have c4: "?r2 ! 1 = js ''weather''" by simp
  have d: "endsWith (js ''alice_messages.csv'') (js ''.csv'')" by code_simp
  have l: "(2::int) \<le> 10" by simp
  have m1: "row_message ?r1 = message_of sunny_request" by code_simp
  have m2: "row_message ?r2 = message_of rainy_request" by code_simp
  note t = malformed_line_skipped [OF h a1 a2 a3 a4 b1 b2 b3 c1 c2 c3 c4 d l, of example_Date]
  have e: "scan_content (js ''weather'')
     (js ''Timestamp,Topic,Sender,Message'' @ NEWLINE # butlast (save_line sunny_request) @
      NEWLINE # js ''not a record'' @ NEWLINE # butlast (save_line rainy_request) @ [NEWLINE])
     ([], []) = ([message_of sunny_request, message_of rainy_request], [])"
    using t [THEN conjunct1] unfolding m1 m2 .
  show ?thesis
    using h a1 a2 b1 b2 c1 c2 d l e by (intro conjI)
qed

text \<open>
  C7, as stated, fails in its first part: \<open>getMessagesForTopic\<close> catches the error and
  returns \<open>[]\<close>, so the caller gets the success response of a topic without messages. Here
  the directory cannot be listed, and here its one file cannot be read.
\<close>

theorem storage_failure_counterexample:
  "get_messages example_Date None (js ''weather'') None = Ok200 [] (js ''weather'') 0 \<and>
   readFileSync unreadable_file (js ''alice_messages.csv'') = Inl StorageUnavailable \<and>
   get_messages example_Date unreadable_file (js ''weather'') None = Ok200 [] (js ''weather'') 0"
  by code_simp

text \<open>
  C7, amended: when the log directory cannot be listed or one of its \<open>.csv\<close> files cannot
  be read, \<open>getMessagesForTopic\<close> returns the empty list and the endpoint answers with its
  success response, no messages and the count 0; nothing is thrown.
\<close>

theorem storage_failure_empty_result:
  assumes "storage_unavailable st"
  shows "getMessagesForTopic Date st tpc limit_arg = [] \<and>
         get_messages Date st tpc q = Ok200 [] tpc 0"
proof -
  obtain e w where "collect_messages st tpc = (Inl e, w)"
    using collect_messages_fails [OF assms, of tpc]
    by (cases "collect_messages st tpc") (auto simp: isl_def)
  then have "getMessagesForTopic Date st tpc l = []" for l
    by (simp add: getMessagesForTopic_def getMessagesForTopic_run_def)
  then show ?thesis by (simp add: get_messages_def)
qed

theorem storage_failure_empty_result_witness:
  "storage_unavailable unreadable_file \<and>
   getMessagesForTopic example_Date unreadable_file (js ''weather'') (Some 10) = [] \<and>
   get_messages example_Date unreadable_file (js ''weather'') (Some (js ''10'')) =
     Ok200 [] (js ''weather'') 0"
proof -
  have h: "storage_unavailable unreadable_file" by code_simp
  show ?thesis
    using storage_failure_empty_result [OF h, of example_Date "js ''weather''" "Some 10" "Some (js ''10'')"] h
    by simp
qed




text \<open>
  C10, as stated, fails for a timestamp that holds a comma: the timestamp is written without
  quotes, so \<open>Jan 1, 2024\<close> counts as two fields, the line of the empty-body request
  decodes to 4 fields, and a query for the topic \<open>2024\<close> returns an object built from it.
\<close>

theorem empty_body_counterexample:
  "payload_text comma_request = [] \<and>
   parseCSVLine (butlast (save_line comma_request)) =
     Inr [js ''Jan 1'', js ''2024'', js ''weather'', js ''alice''] \<and>
   getMessagesForTopic example_Date comma_file (js ''2024'') (Some 10) =
     [\<lparr>m_timestamp = js ''Jan 1'', m_topic = js ''2024'', m_username = js ''weather'',
       m_message = js ''alice'', m_sender = js ''weather''\<rparr>]"
  by code_simp

text \<open>
  C10, amended: for a request with an empty body whose timestamp text holds no quote, comma
  or line break and whose topic and sender hold no line break, the saved line ends in an
  empty quoted field, the line as the query reads it decodes to 3 fields, and appending it
  to a new file, or to a file that ends in a line break, changes nothing in what the scan
  of that file collects for any topic.
\<close>

theorem empty_body_not_returned:
  assumes "line_safe r" and "payload_text r = []"
  shows "save_line r = timestamp_text r @ [COMMA, QUOTE] @ safeTopic r @ [QUOTE, COMMA, QUOTE] @
           safeSender r @ [QUOTE, COMMA, QUOTE, QUOTE, NEWLINE] \<and>
         parseCSVLine (butlast (save_line r)) =
           Inr [trim (timestamp_text r), trim (topic_text r), trim (sender_text r)] \<and>
         scan_content tpc (saved_content None r) acc = acc \<and>
         scan_content tpc (saved_content (Some (content @ [NEWLINE])) r) acc =
           scan_content tpc (content @ [NEWLINE]) acc"
proof -
  have a: "save_line r = timestamp_text r @ [COMMA, QUOTE] @ safeTopic r @ [QUOTE, COMMA, QUOTE] @
           safeSender r @ [QUOTE, COMMA, QUOTE, QUOTE, NEWLINE]"
    using assms(2) by (simp add: save_line_def safePayload_def escapeQuotes_def)
  have b: "parseCSVLine (butlast (save_line r)) =
           Inr [trim (timestamp_text r), trim (topic_text r), trim (sender_text r)]"
    using assms parseCSVLine_stored_line [of r] by (simp add: line_safe_def)
  have h: "scan_content tpc header acc = acc"
    using split_header_lines [of "[]"] by (simp add: scan_content_def)
  have c: "scan_content tpc (saved_content None r) acc = acc"
    using scan_content_append_empty_body [OF assms, of tpc "js ''Timestamp,Topic,Sender,Message''" acc] h
    by (simp add: saved_content_def header_def)
  have d: "scan_content tpc (saved_content (Some (content @ [NEWLINE])) r) acc =
           scan_content tpc (content @ [NEWLINE]) acc"
    using scan_content_append_empty_body [OF assms, of tpc content acc]
    by (simp add: saved_content_def)
  show ?thesis using a b c d by simp
qed

theorem empty_body_not_returned_witness:
  "line_safe (sunny_request\<lparr>body_payload := Some []\<rparr>) \<and>
   payload_text (sunny_request\<lparr>body_payload := Some []\<rparr>) = [] \<and>
   save_line (sunny_request\<lparr>body_payload := Some []\<rparr>) =
     js ''2024-01-01T00:00:00Z,'' @ [QUOTE] @ js ''weather'' @ [QUOTE, COMMA, QUOTE] @
     js ''alice'' @ [QUOTE, COMMA, QUOTE, QUOTE, NEWLINE] \<and>
   parseCSVLine (butlast (save_line (sunny_request\<lparr>body_payload := Some []\<rparr>))) =
     Inr [js ''2024-01-01T00:00:00Z'', js ''weather'', js ''alice''] \<and>
   scan_content (js ''weather'') (saved_content None (sunny_request\<lparr>body_payload := Some []\<rparr>))
     ([], []) = ([], []) \<and>
   scan_content (js ''weather'')
     (saved_content (Some (saved_content None rainy_request)) (sunny_request\<lparr>body_payload := Some []\<rparr>))
     ([], []) = ([message_of rainy_request], [])"
proof -
  let ?r = "sunny_request\<lparr>body_payload := Some []\<rparr>"
  have h1: "line_safe ?r" by code_simp
  have h2: "payload_text ?r = []" by code_simp
  have e1: "timestamp_text ?r @ [COMMA, QUOTE] @ safeTopic ?r @ [QUOTE, COMMA, QUOTE] @
      safeSender ?r @ [QUOTE, COMMA, QUOTE, QUOTE, NEWLINE] =
      js ''2024-01-01T00:00:00Z,'' @ [QUOTE] @ js ''weather'' @ [QUOTE, COMMA, QUOTE] @
      js ''alice'' @ [QUOTE, COMMA, QUOTE, QUOTE, NEWLINE]"
    by code_simp
  have e2: "[trim (timestamp_text ?r), trim (topic_text ?r), trim (sender_text ?r)] =
      [js ''2024-01-01T00:00:00Z'', js ''weather'', js ''alice'']"
    by code_simp
  have e3: "butlast (saved_content None rainy_request) @ [NEWLINE] = saved_content None rainy_request"
    by code_simp
  have e4: "scan_content (js ''weather'') (saved_content None rainy_request) ([], []) =
      ([message_of rainy_request], [])"
    by code_simp
  note t = empty_body_not_returned [OF h1 h2, of "js ''weather''" "([], [])"
      "butlast (saved_content None rainy_request)"]
  have c1: "save_line ?r = js ''2024-01-01T00:00:00Z,'' @ [QUOTE] @ js ''weather'' @
      [QUOTE, COMMA, QUOTE] @ js ''alice'' @ [QUOTE, COMMA, QUOTE, QUOTE, NEWLINE]"
    using t [THEN conjunct1] e1 by (rule trans)
  have c2: "parseCSVLine (butlast (save_line ?r)) =
      Inr [js ''2024-01-01T00:00:00Z'', js ''weather'', js ''alice'']"
    using t [THEN conjunct2, THEN conjunct1] unfolding e2 .
  have c3: "scan_content (js ''weather'') (saved_content None ?r) ([], []) = ([], [])"
    using t [THEN conjunct2, THEN conjunct2, THEN conjunct1] .
  have c4: "scan_content (js ''weather'')
      (saved_content (Some (saved_content None rainy_request)) ?r) ([], []) =
      ([message_of rainy_request], [])"
    using t [THEN conjunct2, THEN conjunct2, THEN conjunct2] unfolding e3 e4 .
  show ?thesis
    using h1 h2 c1 c2 c3 c4 by (intro conjI)
qed

section \<open>The topic registry: claims\<close>

text \<open>
  C2 fails on the code for the empty topic: \<open>if (joinedTopic)\<close> takes the empty string
  for "no topic". A socket that joins the topic \<open>''\<close> raises its count to 1, and neither
  its disconnect nor its move to another topic lowers the count again: the count stays 1
  with no socket joined to that topic. (In the model, where \<open>userCounts\<close> has no
  inherited property, the claim holds for the non-empty topics:
  \<open>counts_of_nonempty_topics\<close>.)
\<close>

theorem empty_topic_count_stays:
  "count_of (run [Connection 0, JoinTopic 0 [], Disconnect 0]) [] = 1 \<and>
   joined_clients (run [Connection 0, JoinTopic 0 [], Disconnect 0]) [] = {} \<and>
   count_of (run [Connection 0, JoinTopic 0 [], JoinTopic 0 (js ''weather'')]) [] = 1 \<and>
   joined_clients (run [Connection 0, JoinTopic 0 [], JoinTopic 0 (js ''weather'')]) [] = {}"
  by (simp add: run_def initial_def on_connection_def on_joinTopic_def on_disconnect_def
      truthy_topic_def count_of_def joined_clients_def js_def)

text \<open>
  C5 fails on the code for the empty topic, by the same test \<open>if (joinedTopic)\<close>: a socket
  that has joined the topic \<open>''\<close> and joins it again is not taken out first, so the count
  goes from 1 to 2 and one event is sent, not two. (In the model, where \<open>userCounts\<close>
  has no inherited property, the claim holds for a non-empty topic: \<open>rejoin_same_topic\<close>.)
\<close>

theorem empty_topic_rejoin:
  "joinedTopic (run [Connection 0, JoinTopic 0 []]) 0 = Some (Some []) \<and>
   count_of (run [Connection 0, JoinTopic 0 []]) [] = 1 \<and>
   count_of (step (run [Connection 0, JoinTopic 0 []]) (JoinTopic 0 [])) [] = 2 \<and>
   emitted (run [Connection 0, JoinTopic 0 []]) = [([], 1)] \<and>
   emitted (step (run [Connection 0, JoinTopic 0 []]) (JoinTopic 0 [])) = [([], 1), ([], 2)]"
  by (simp add: run_def initial_def on_connection_def on_joinTopic_def
      truthy_topic_def count_of_def)

end
